theory Spec2Isabelle
  imports Main
begin

section \<open>The toast queue of \<open>src/components/Message/index.tsx\<close>\<close>

text \<open>
  The module keeps one array \<open>queue\<close>, installs \<open>window.onShow\<close> and, per call,
  one \<open>setTimeout\<close> callback. Objects with identity (the \<open>div\<close> elements made by
  \<open>document.createElement\<close>, the roots made by \<open>ReactDom.createRoot\<close>) live in two
  stores; a reference is an index into its store and allocation appends, so a new
  object is never identical to an older one. Only the objects this module allocates
  are in the stores, and \<open>body\<close> lists the children of \<open>document.body\<close> that this
  module attached, in document order: the page's own children of \<open>body\<close> are never
  passed to \<open>appendChild\<close> or \<open>removeChild\<close> here.
\<close>

subsection \<open>Data\<close>

type_synonym node = nat
type_synonym root_ref = nat

datatype vnode = Element string "vnode list" | Text string

record HTMLDivElement =
  className :: string
  style_top :: string

text \<open>A \<open>ReactDom.Root\<close>: the container it was created for and what it shows
  (\<open>None\<close> before \<open>render\<close> and after \<open>unmount\<close>).\<close>

record Root =
  container :: node
  rendered :: "vnode option"

text \<open>\<open>interface Item { msgContainer: HTMLDivElement; root: ReactDom.Root }\<close>\<close>

record Item =
  msgContainer :: node
  root :: root_ref

text \<open>A pending \<open>setTimeout\<close> task of this module is its deadline together with the
  \<open>msgContainer\<close> its closure captured.\<close>

record state =
  queue :: "Item list"
  body :: "node list"
  elements :: "HTMLDivElement list"
  roots :: "Root list"
  timers :: "(nat \<times> node) list"
  now :: nat

datatype js_error = TypeError | NotFoundError

datatype completion = Normal state | Throw js_error state

fun state_of :: "completion \<Rightarrow> state" where
  "state_of (Normal s) = s"
| "state_of (Throw e s) = s"

subsection \<open>The component\<close>

text \<open>\<open>const Message = () => { return <div>...</div>; }\<close>; the text is the four
  characters U+63D0 U+793A U+7EC4 U+4EF6, here as the UTF-8 bytes of the source file.
  The body has no parameter, calls no hook and names no variable outside it, so the
  component is embedded as a function of the unit; that it reads and writes nothing is
  then a property of the embedding, not a theorem about it.\<close>

definition Message :: "unit \<Rightarrow> vnode" where
  "Message u = Element ''div''
     [Text [CHR 0xE6, CHR 0x8F, CHR 0x90, CHR 0xE7, CHR 0xA4, CHR 0xBA,
            CHR 0xE7, CHR 0xBB, CHR 0x84, CHR 0xE4, CHR 0xBB, CHR 0xB6]]"

subsection \<open>Runtime primitives the module calls\<close>

text \<open>\<open>`${n}`\<close> for a non-negative integer \<open>n\<close>: its decimal digits. (The product
  \<open>queue.length * 50\<close> is an exact integer far below \<open>2^53\<close> and \<open>10^21\<close>, where the
  rendering of a JavaScript number would change; lengths are natural numbers here.)\<close>

definition digit_char :: "nat \<Rightarrow> char" where
  "digit_char d = ''0123456789'' ! d"

fun toString :: "nat \<Rightarrow> string" where
  "toString n = (if n < 10 then [digit_char n] else toString (n div 10) @ [digit_char (n mod 10)])"

declare toString.simps [simp del]

definition createElement :: "HTMLDivElement list \<Rightarrow> node \<times> HTMLDivElement list" where
  "createElement els = (length els, els @ [\<lparr>className = [], style_top = []\<rparr>])"

text \<open>\<open>parent.appendChild(c)\<close> puts \<open>c\<close> last; a node that is already a child is moved.\<close>

definition appendChild :: "node \<Rightarrow> node list \<Rightarrow> node list" where
  "appendChild c children = removeAll c children @ [c]"

definition createRoot :: "node \<Rightarrow> Root list \<Rightarrow> root_ref \<times> Root list" where
  "createRoot c rts = (length rts, rts @ [\<lparr>container = c, rendered = None\<rparr>])"

definition render :: "root_ref \<Rightarrow> vnode \<Rightarrow> Root list \<Rightarrow> Root list" where
  "render r v rts = (if r < length rts then rts[r := (rts ! r)\<lparr>rendered := Some v\<rparr>] else rts)"

definition unmount :: "root_ref \<Rightarrow> Root list \<Rightarrow> Root list" where
  "unmount r rts = (if r < length rts then rts[r := (rts ! r)\<lparr>rendered := None\<rparr>] else rts)"

text \<open>\<open>setTimeout(cb, delay)\<close> called at time \<open>t\<close>: the task may run once the clock
  has reached \<open>t + delay\<close>.\<close>

definition setTimeout :: "node \<Rightarrow> nat \<Rightarrow> nat \<Rightarrow> (nat \<times> node) list \<Rightarrow> (nat \<times> node) list" where
  "setTimeout c delay t tms = tms @ [(t + delay, c)]"

text \<open>\<open>Array.prototype.indexOf\<close>: the first index holding the value, or \<open>-1\<close>.\<close>

fun indexOf :: "'a \<Rightarrow> 'a list \<Rightarrow> int" where
  "indexOf x [] = -1"
| "indexOf x (y # ys) = (if x = y then 0 else (let i = indexOf x ys in if i < 0 then -1 else i + 1))"

text \<open>\<open>xs.splice(start, 1)\<close>: a negative \<open>start\<close> counts from the end, and a start
  beyond the end removes nothing.\<close>

definition splice1 :: "int \<Rightarrow> 'a list \<Rightarrow> 'a list" where
  "splice1 start xs =
     (let len = int (length xs);
          st = (if start < 0 then max (len + start) 0 else min start len)
      in take (nat st) xs @ drop (nat st + 1) xs)"

subsection \<open>\<open>window.onShow\<close> and its expiry callback\<close>

definition onShow :: "state \<Rightarrow> state" where
  "onShow s =
     (let (msgContainer, els1) = createElement (elements s);
          els2 = els1[msgContainer := (els1 ! msgContainer)\<lparr>className := ''message''\<rparr>];
          els3 = els2[msgContainer := (els2 ! msgContainer)
                   \<lparr>style_top := toString (length (queue s) * 50) @ ''px''\<rparr>];
          body1 = appendChild msgContainer (body s);
          (root, rts1) = createRoot msgContainer (roots s);
          rts2 = render root (Message ()) rts1;
          queue1 = queue s @ [\<lparr>msgContainer = msgContainer, root = root\<rparr>];
          timers1 = setTimeout msgContainer 2000 (now s) (timers s)
      in \<lparr>queue = queue1, body = body1, elements = els3, roots = rts2,
          timers = timers1, now = now s\<rparr>)"

text \<open>The arrow function handed to \<open>setTimeout\<close>, with \<open>msgContainer\<close> the captured
  node. Reading \<open>item.root\<close> of \<open>undefined\<close> throws a \<open>TypeError\<close>, and
  \<open>removeChild\<close> of a node that is not a child throws a \<open>NotFoundError\<close>; what was
  mutated before the throw stays mutated. \<open>queue.indexOf(item)\<close> compares object
  references; an \<open>Item\<close> object is made by one \<open>push\<close> only and holds a root made for
  it alone, so two different \<open>Item\<close> objects differ in their \<open>root\<close> field and comparing
  the records by value gives the same index.\<close>

definition expire :: "node \<Rightarrow> state \<Rightarrow> completion" where
  "expire c s =
     (case find (\<lambda>item. msgContainer item = c) (queue s) of
        None \<Rightarrow> Throw TypeError s
      | Some item \<Rightarrow>
          let s1 = s\<lparr>roots := unmount (root item) (roots s)\<rparr> in
          if msgContainer item \<notin> set (body s1) then Throw NotFoundError s1
          else
            let s2 = s1\<lparr>body := remove1 (msgContainer item) (body s1)\<rparr> in
            Normal (s2\<lparr>queue := splice1 (indexOf item (queue s2)) (queue s2)\<rparr>))"

subsection \<open>The event loop\<close>

text \<open>
  Everything runs on one thread, a task at a time. The page calls \<open>window.onShow()\<close>,
  the clock advances, or a pending timer task whose deadline has passed runs; a task
  may run late, never early, and nothing in the module cancels one (there is no
  \<open>clearTimeout\<close>). \<open>Fire k\<close> runs the \<open>k\<close>-th pending task; it is not enabled (\<open>None\<close>)
  when there is no such task or its deadline lies ahead. Any task that is due may be the
  next to run, which includes the order of registration that browsers follow. The clock
  counts milliseconds.
\<close>

datatype event = Call | Tick nat | Fire nat

definition fire :: "nat \<Rightarrow> state \<Rightarrow> completion option" where
  "fire k s =
     (if k < length (timers s) \<and> fst (timers s ! k) \<le> now s
      then Some (expire (snd (timers s ! k))
                   (s\<lparr>timers := take k (timers s) @ drop (Suc k) (timers s)\<rparr>))
      else None)"

fun step :: "event \<Rightarrow> state \<Rightarrow> completion option" where
  "step Call s = Some (Normal (onShow s))"
| "step (Tick d) s = Some (Normal (s\<lparr>now := now s + d\<rparr>))"
| "step (Fire k) s = fire k s"

text \<open>A run carries on from the state an uncaught exception leaves behind, as the
  browser does.\<close>

fun run :: "event list \<Rightarrow> state \<Rightarrow> state option" where
  "run [] s = Some s"
| "run (e # es) s = (case step e s of None \<Rightarrow> None | Some r \<Rightarrow> run es (state_of r))"

text \<open>The module as loaded at time \<open>t\<close>: \<open>const queue: Item[] = []\<close>, nothing attached,
  nothing scheduled.\<close>

definition init :: "nat \<Rightarrow> state" where
  "init t = \<lparr>queue = [], body = [], elements = [], roots = [], timers = [], now = t\<rparr>"

text \<open>What the page shows for a record: the \<open>top\<close> of its container.\<close>

definition top_of :: "state \<Rightarrow> Item \<Rightarrow> string" where
  "top_of s item = style_top (elements s ! msgContainer item)"

subsection \<open>Well-formed states\<close>

text \<open>The records, the attached containers and the pending tasks list the same
  containers in the same order, without repetition; every record's root was created
  for its container and shows the component; no other root of the store shows
  anything.\<close>

definition queue_inv :: "state \<Rightarrow> bool" where
  "queue_inv s \<longleftrightarrow>
     map msgContainer (queue s) = body s \<and>
     map snd (timers s) = body s \<and>
     distinct (body s) \<and>
     (\<forall>c\<in>set (body s). c < length (elements s)) \<and>
     distinct (map root (queue s)) \<and>
     (\<forall>item\<in>set (queue s). root item < length (roots s) \<and>
        roots s ! root item = \<lparr>container = msgContainer item, rendered = Some (Message ())\<rparr>) \<and>
     (\<forall>r\<in>set [0..<length (roots s)].
        rendered (roots s ! r) \<noteq> None \<longrightarrow> r \<in> root ` set (queue s))"

text \<open>The deadlines of the tasks scheduled by the calls of a sequence of events that
  starts at time \<open>t\<close>: each call's own time plus 2000.\<close>

fun deadlines :: "nat \<Rightarrow> event list \<Rightarrow> nat list" where
  "deadlines t [] = []"
| "deadlines t (Call # es) = (t + 2000) # deadlines t es"
| "deadlines t (Tick d # es) = deadlines (t + d) es"
| "deadlines t (Fire k # es) = deadlines t es"

fun is_Fire :: "event \<Rightarrow> bool" where
  "is_Fire (Fire k) = True"
| "is_Fire e = False"

subsection \<open>The life of one record\<close>

text \<open>A record pushed by a call at time \<open>T\<close> is either still queued with its own task
  pending, or it is gone for good: detached, unmounted, and the clock is past
  \<open>T + 2000\<close>.\<close>

definition tracked :: "nat \<Rightarrow> Item \<Rightarrow> state \<Rightarrow> bool" where
  "tracked T item s \<longleftrightarrow>
     queue_inv s \<and> msgContainer item < length (elements s) \<and> root item < length (roots s) \<and>
     ((item \<in> set (queue s) \<and> (T + 2000, msgContainer item) \<in> set (timers s)) \<or>
      (msgContainer item \<notin> set (body s) \<and> T + 2000 \<le> now s \<and>
       rendered (roots s ! root item) = None))"

section \<open>Facts about the primitives\<close>

lemma onShow_queue: "queue (onShow s) = queue s @ [\<lparr>msgContainer = length (elements s), root = length (roots s)\<rparr>]"
  by (simp add: onShow_def createElement_def createRoot_def)

lemma onShow_elements: "elements (onShow s) =
    elements s @ [\<lparr>className = ''message'', style_top = toString (length (queue s) * 50) @ ''px''\<rparr>]"
  by (simp add: onShow_def createElement_def createRoot_def)

lemma onShow_roots: "roots (onShow s) =
    roots s @ [\<lparr>container = length (elements s), rendered = Some (Message ())\<rparr>]"
  by (simp add: onShow_def createElement_def createRoot_def render_def)

lemma onShow_body: "body (onShow s) = removeAll (length (elements s)) (body s) @ [length (elements s)]"
  by (simp add: onShow_def createElement_def createRoot_def appendChild_def)

lemma onShow_timers: "timers (onShow s) = timers s @ [(now s + 2000, length (elements s))]"
  by (simp add: onShow_def createElement_def createRoot_def setTimeout_def)

lemma onShow_now: "now (onShow s) = now s"
  by (simp add: onShow_def createElement_def createRoot_def)

lemma indexOf_range: "indexOf x xs = -1 \<or> (0 \<le> indexOf x xs \<and> indexOf x xs < int (length xs))"
  by (induction xs) (auto simp: Let_def)

lemma indexOf_mem: "x \<in> set xs \<Longrightarrow> 0 \<le> indexOf x xs"
  by (induction xs) (auto simp: Let_def)

lemma indexOf_not_mem: "x \<notin> set xs \<Longrightarrow> indexOf x xs = -1"
  by (induction xs) (auto simp: Let_def)

lemma splice1_Cons: "0 \<le> i \<Longrightarrow> splice1 (i + 1) (y # ys) = y # splice1 i ys"
  apply (simp add: splice1_def Let_def nat_add_distrib min_def)
  done

lemma splice1_indexOf: "x \<in> set xs \<Longrightarrow> splice1 (indexOf x xs) xs = remove1 x xs"
proof (induction xs)
  case Nil then show ?case by simp
next
  case (Cons y ys)
  show ?case
  proof (cases "x = y")
    case True then show ?thesis by (simp add: splice1_def)
  next
    case False
    with Cons.prems have m: "x \<in> set ys" by simp
    then have "0 \<le> indexOf x ys" by (rule indexOf_mem)
    with False Cons.IH[OF m] show ?thesis by (simp add: Let_def splice1_Cons)
  qed
qed

lemma splice1_minus1: "splice1 (- 1) xs = butlast xs"
  by (cases xs rule: rev_cases) (simp_all add: splice1_def)

lemma find_mem: "find P xs = Some x \<Longrightarrow> x \<in> set xs \<and> P x"
  by (induction xs) (auto split: if_splits)

lemma find_exists: "\<exists>x\<in>set xs. P x \<Longrightarrow> \<exists>x. find P xs = Some x"
  by (induction xs) auto

lemma filter_key_fresh: "f x \<notin> f ` set xs \<Longrightarrow> filter (\<lambda>y. f y \<noteq> f x) xs = xs"
  by (induction xs) auto

lemma remove1_filter_key: "distinct (map f xs) \<Longrightarrow> x \<in> set xs \<Longrightarrow> remove1 x xs = filter (\<lambda>y. f y \<noteq> f x) xs"
  by (induction xs) (auto simp: filter_key_fresh)

lemma drop_nth_filter_key:
  "distinct (map f xs) \<Longrightarrow> k < length xs \<Longrightarrow> take k xs @ drop (Suc k) xs = filter (\<lambda>y. f y \<noteq> f (xs ! k)) xs"
proof (induction xs arbitrary: k)
  case Nil then show ?case by simp
next
  case (Cons y ys)
  show ?case
  proof (cases k)
    case 0 with Cons.prems show ?thesis by (auto simp: filter_key_fresh)
  next
    case (Suc j)
    with Cons.prems Cons.IH[of j] show ?thesis by (auto simp: filter_key_fresh)
  qed
qed


lemma remove1_distinct_filter:
  "distinct xs \<Longrightarrow> c \<in> set xs \<Longrightarrow> remove1 c xs = filter (\<lambda>x. x \<noteq> c) xs"
  using remove1_filter_key[of "\<lambda>x. x" xs c] by simp

lemma expire_normal:
  assumes q: "map msgContainer (queue s) = body s" and d: "distinct (body s)" and c: "c \<in> set (body s)"
  shows "\<exists>item s'. find (\<lambda>i. msgContainer i = c) (queue s) = Some item \<and> item \<in> set (queue s) \<and>
           msgContainer item = c \<and> expire c s = Normal s' \<and>
           queue s' = filter (\<lambda>i. msgContainer i \<noteq> c) (queue s) \<and>
           body s' = filter (\<lambda>x. x \<noteq> c) (body s) \<and>
           roots s' = unmount (root item) (roots s) \<and>
           elements s' = elements s \<and> timers s' = timers s \<and> now s' = now s"
proof -
  from q c have "\<exists>x\<in>set (queue s). msgContainer x = c" by (metis (no_types, lifting) image_iff list.set_map)
  then obtain item where f: "find (\<lambda>i. msgContainer i = c) (queue s) = Some item"
    using find_exists[of "queue s" "\<lambda>i. msgContainer i = c"] by blast
  then have m: "item \<in> set (queue s)" and mc: "msgContainer item = c"
    using find_mem[OF f] by auto
  from q d have dq: "distinct (map msgContainer (queue s))" by simp
  have sp: "splice1 (indexOf item (queue s)) (queue s) = filter (\<lambda>i. msgContainer i \<noteq> c) (queue s)"
    using splice1_indexOf[OF m] remove1_filter_key[OF dq m] mc by simp
  have rb: "remove1 c (body s) = filter (\<lambda>x. x \<noteq> c) (body s)"
    using d c by (rule remove1_distinct_filter)
  show ?thesis
    using f m mc c sp rb by (simp add: expire_def Let_def)
qed


subsection \<open>The expiry callback on a well-formed state\<close>

lemma map_filter_key: "map f (filter (\<lambda>x. f x \<noteq> c) xs) = filter (\<lambda>y. y \<noteq> c) (map f xs)"
  by (induction xs) auto

lemma fire_normal:
  assumes inv: "queue_inv s" and k: "k < length (timers s)" and due: "fst (timers s ! k) \<le> now s"
  shows "\<exists>item s'. find (\<lambda>i. msgContainer i = snd (timers s ! k)) (queue s) = Some item \<and>
           item \<in> set (queue s) \<and> msgContainer item = snd (timers s ! k) \<and>
           fire k s = Some (Normal s') \<and>
           queue s' = filter (\<lambda>i. msgContainer i \<noteq> snd (timers s ! k)) (queue s) \<and>
           body s' = filter (\<lambda>x. x \<noteq> snd (timers s ! k)) (body s) \<and>
           roots s' = unmount (root item) (roots s) \<and>
           elements s' = elements s \<and>
           timers s' = filter (\<lambda>tm. snd tm \<noteq> snd (timers s ! k)) (timers s) \<and>
           now s' = now s"
proof -
  let ?c = "snd (timers s ! k)"
  let ?s0 = "s\<lparr>timers := take k (timers s) @ drop (Suc k) (timers s)\<rparr>"
  from inv have q: "map msgContainer (queue s) = body s" and t: "map snd (timers s) = body s"
    and d: "distinct (body s)" by (simp_all add: queue_inv_def)
  from k have "?c \<in> set (map snd (timers s))" by (metis length_map nth_map nth_mem)
  with t have c: "?c \<in> set (body s)" by simp
  from t d have dt: "distinct (map snd (timers s))" by simp
  have tk: "take k (timers s) @ drop (Suc k) (timers s) = filter (\<lambda>tm. snd tm \<noteq> ?c) (timers s)"
    using drop_nth_filter_key[OF dt k] .
  have "map msgContainer (queue ?s0) = body ?s0" "distinct (body ?s0)" "?c \<in> set (body ?s0)"
    using q d c by simp_all
  from expire_normal[OF this] obtain item s' where
    e: "find (\<lambda>i. msgContainer i = ?c) (queue ?s0) = Some item" "item \<in> set (queue ?s0)"
       "msgContainer item = ?c" "expire ?c ?s0 = Normal s'"
       "queue s' = filter (\<lambda>i. msgContainer i \<noteq> ?c) (queue ?s0)"
       "body s' = filter (\<lambda>x. x \<noteq> ?c) (body ?s0)"
       "roots s' = unmount (root item) (roots ?s0)"
       "elements s' = elements ?s0" "timers s' = timers ?s0" "now s' = now ?s0"
    by blast
  have f: "fire k s = Some (Normal s')" using k due e(4) by (simp add: fire_def)
  show ?thesis
    apply (rule exI[of _ item], rule exI[of _ s'])
    using e f tk by simp
qed

lemma queue_inv_removal:
  assumes inv: "queue_inv s" and m: "item \<in> set (queue s)" and mc: "msgContainer item = c"
    and q': "queue s' = filter (\<lambda>i. msgContainer i \<noteq> c) (queue s)"
    and b': "body s' = filter (\<lambda>x. x \<noteq> c) (body s)"
    and r': "roots s' = unmount (root item) (roots s)"
    and e': "elements s' = elements s"
    and t': "timers s' = filter (\<lambda>tm. snd tm \<noteq> c) (timers s)"
  shows "queue_inv s'"
proof -
  from inv have q: "map msgContainer (queue s) = body s" and t: "map snd (timers s) = body s"
    and d: "distinct (body s)" and el: "\<forall>c\<in>set (body s). c < length (elements s)"
    and dr: "distinct (map root (queue s))"
    and rt: "\<forall>item\<in>set (queue s). root item < length (roots s) \<and>
        roots s ! root item = \<lparr>container = msgContainer item, rendered = Some (Message ())\<rparr>"
    and mt: "\<forall>r\<in>set [0..<length (roots s)].
        rendered (roots s ! r) \<noteq> None \<longrightarrow> r \<in> root ` set (queue s)"
    by (simp_all add: queue_inv_def)
  have 1: "map msgContainer (queue s') = body s'"
    unfolding q' b' q[symmetric] by (rule map_filter_key)
  have 2: "map snd (timers s') = body s'"
    unfolding t' b' t[symmetric] by (rule map_filter_key)
  have 3: "distinct (body s')" using d by (simp add: b')
  have 4: "\<forall>c\<in>set (body s'). c < length (elements s')" using el by (simp add: b' e')
  have 5: "distinct (map root (queue s'))" using dr by (simp add: q' distinct_map_filter)
  have other: "root i \<noteq> root item" if "i \<in> set (queue s')" for i
  proof -
    from that have i: "i \<in> set (queue s)" "msgContainer i \<noteq> c" by (simp_all add: q')
    with mc have "i \<noteq> item" by auto
    with dr i(1) m show ?thesis by (meson distinct_map inj_onD)
  qed
  have len: "length (roots s') = length (roots s)" by (simp add: r' unmount_def)
  have 6: "\<forall>i\<in>set (queue s'). root i < length (roots s') \<and>
        roots s' ! root i = \<lparr>container = msgContainer i, rendered = Some (Message ())\<rparr>"
  proof
    fix i assume i: "i \<in> set (queue s')"
    then have "i \<in> set (queue s)" by (simp add: q')
    with rt have "root i < length (roots s)"
      "roots s ! root i = \<lparr>container = msgContainer i, rendered = Some (Message ())\<rparr>" by auto
    with other[OF i] show "root i < length (roots s') \<and>
        roots s' ! root i = \<lparr>container = msgContainer i, rendered = Some (Message ())\<rparr>"
      by (simp add: r' unmount_def)
  qed
  have 7: "\<forall>r\<in>set [0..<length (roots s')].
        rendered (roots s' ! r) \<noteq> None \<longrightarrow> r \<in> root ` set (queue s')"
  proof (intro ballI impI)
    fix r assume r: "r \<in> set [0..<length (roots s')]" and n: "rendered (roots s' ! r) \<noteq> None"
    from r len have rl: "r < length (roots s)" by simp
    have ne: "r \<noteq> root item" using n rl by (auto simp: r' unmount_def)
    then have "rendered (roots s ! r) \<noteq> None" using n by (simp add: r' unmount_def split: if_splits)
    with mt rl obtain i where i: "i \<in> set (queue s)" "r = root i" by auto
    have "msgContainer i \<noteq> c"
    proof
      assume "msgContainer i = c"
      with mc q d i(1) m have "i = item"
        by (metis distinct_map inj_onD)
      with ne i(2) show False by simp
    qed
    with i show "r \<in> root ` set (queue s')" by (auto simp: q')
  qed
  from 1 2 3 4 5 6 7 show ?thesis unfolding queue_inv_def by blast
qed


section \<open>The well-formedness invariant\<close>

lemma queue_inv_init: "queue_inv (init t)"
  by (simp add: queue_inv_def init_def)

lemma queue_inv_fresh: "queue_inv s \<Longrightarrow> length (elements s) \<notin> set (body s)"
  by (auto simp: queue_inv_def)

lemma onShow_body_inv: "queue_inv s \<Longrightarrow> body (onShow s) = body s @ [length (elements s)]"
  using queue_inv_fresh[of s] by (simp add: onShow_body)

lemma queue_inv_onShow:
  assumes inv: "queue_inv s"
  shows "queue_inv (onShow s)"
proof -
  from inv have q: "map msgContainer (queue s) = body s" and t: "map snd (timers s) = body s"
    and d: "distinct (body s)" and el: "\<forall>c\<in>set (body s). c < length (elements s)"
    and dr: "distinct (map root (queue s))"
    and rt: "\<forall>item\<in>set (queue s). root item < length (roots s) \<and>
        roots s ! root item = \<lparr>container = msgContainer item, rendered = Some (Message ())\<rparr>"
    and mt: "\<forall>r\<in>set [0..<length (roots s)].
        rendered (roots s ! r) \<noteq> None \<longrightarrow> r \<in> root ` set (queue s)"
    by (simp_all add: queue_inv_def)
  note b = onShow_body_inv[OF inv]
  have fr: "length (elements s) \<notin> set (body s)" using inv by (rule queue_inv_fresh)
  have 1: "map msgContainer (queue (onShow s)) = body (onShow s)"
    using q by (simp add: onShow_queue b)
  have 2: "map snd (timers (onShow s)) = body (onShow s)"
    using t by (simp add: onShow_timers b)
  have 3: "distinct (body (onShow s))" using d fr by (simp add: b)
  have 4: "\<forall>c\<in>set (body (onShow s)). c < length (elements (onShow s))"
    using el by (auto simp: b onShow_elements)
  have nr: "length (roots s) \<notin> root ` set (queue s)" using rt by auto
  have 5: "distinct (map root (queue (onShow s)))"
    using dr nr by (simp add: onShow_queue)
  have 6: "\<forall>i\<in>set (queue (onShow s)). root i < length (roots (onShow s)) \<and>
        roots (onShow s) ! root i = \<lparr>container = msgContainer i, rendered = Some (Message ())\<rparr>"
    using rt by (auto simp: onShow_queue onShow_roots nth_append)
  have 7: "\<forall>r\<in>set [0..<length (roots (onShow s))].
        rendered (roots (onShow s) ! r) \<noteq> None \<longrightarrow> r \<in> root ` set (queue (onShow s))"
  proof (intro ballI impI)
    fix r assume r: "r \<in> set [0..<length (roots (onShow s))]"
      and n: "rendered (roots (onShow s) ! r) \<noteq> None"
    show "r \<in> root ` set (queue (onShow s))"
    proof (cases "r < length (roots s)")
      case True
      with n have "rendered (roots s ! r) \<noteq> None" by (simp add: onShow_roots nth_append)
      with mt True have "r \<in> root ` set (queue s)" by simp
      then show ?thesis by (auto simp: onShow_queue)
    next
      case False
      with r have "r = length (roots s)" by (simp add: onShow_roots)
      then show ?thesis by (simp add: onShow_queue)
    qed
  qed
  from 1 2 3 4 5 6 7 show ?thesis unfolding queue_inv_def by blast
qed

lemma queue_inv_tick: "queue_inv s \<Longrightarrow> queue_inv (s\<lparr>now := now s + d\<rparr>)"
  by (simp add: queue_inv_def)

lemma fire_enabled: "fire k s = Some r \<Longrightarrow> k < length (timers s) \<and> fst (timers s ! k) \<le> now s"
  by (simp add: fire_def split: if_splits)

lemma queue_inv_fire:
  assumes inv: "queue_inv s" and f: "fire k s = Some r"
  shows "queue_inv (state_of r)"
proof -
  from fire_enabled[OF f] have k: "k < length (timers s)" and due: "fst (timers s ! k) \<le> now s" by auto
  from fire_normal[OF inv k due] obtain item s' where
    n: "item \<in> set (queue s)" "msgContainer item = snd (timers s ! k)" "fire k s = Some (Normal s')"
       "queue s' = filter (\<lambda>i. msgContainer i \<noteq> snd (timers s ! k)) (queue s)"
       "body s' = filter (\<lambda>x. x \<noteq> snd (timers s ! k)) (body s)"
       "roots s' = unmount (root item) (roots s)"
       "elements s' = elements s"
       "timers s' = filter (\<lambda>tm. snd tm \<noteq> snd (timers s ! k)) (timers s)"
    by blast
  from n(3) f have "state_of r = s'" by simp
  with queue_inv_removal[OF inv n(1,2,4,5,6,7,8)] show ?thesis by simp
qed

lemma queue_inv_step: "queue_inv s \<Longrightarrow> step e s = Some r \<Longrightarrow> queue_inv (state_of r)"
  by (cases e) (auto simp: queue_inv_onShow queue_inv_tick queue_inv_fire)

lemma queue_inv_run: "queue_inv s \<Longrightarrow> run es s = Some s' \<Longrightarrow> queue_inv s'"
proof (induction es arbitrary: s)
  case Nil then show ?case by simp
next
  case (Cons e es)
  from Cons.prems(2) obtain r where r: "step e s = Some r" "run es (state_of r) = Some s'"
    by (auto split: option.splits)
  from queue_inv_step[OF Cons.prems(1) r(1)] Cons.IH r(2) show ?case by blast
qed

lemma reachable_inv: "run es (init t) = Some s \<Longrightarrow> queue_inv s"
  using queue_inv_run[OF queue_inv_init] .

lemma queue_inv_same_container:
  assumes inv: "queue_inv s" and a: "a \<in> set (queue s)" and b: "b \<in> set (queue s)"
    and e: "msgContainer a = msgContainer b"
  shows "a = b"
proof -
  from inv have "distinct (map msgContainer (queue s))" by (simp add: queue_inv_def)
  with a b e show ?thesis by (meson distinct_map inj_onD)
qed

section \<open>Decimal rendering is injective\<close>

lemma digit_char_inj: "a < 10 \<Longrightarrow> b < 10 \<Longrightarrow> digit_char a = digit_char b \<Longrightarrow> a = b"
proof -
  assume a: "a < 10" and b: "b < 10" and e: "digit_char a = digit_char b"
  have d: "distinct ''0123456789''" by simp
  have l: "length ''0123456789'' = 10" by simp
  from nth_eq_iff_index_eq[OF d, of a b] a b e l show ?thesis by (simp add: digit_char_def)
qed

lemma toString_nonempty: "toString n \<noteq> []"
  by (subst toString.simps) simp

lemma toString_inj: "toString m = toString n \<Longrightarrow> m = n"
proof (induction m arbitrary: n rule: toString.induct)
  case (1 m)
  show ?case
  proof (cases "m < 10")
    case True
    then have lm: "toString m = [digit_char m]" by (subst toString.simps) simp
    show ?thesis
    proof (cases "n < 10")
      case n: True
      then have "toString n = [digit_char n]" by (subst toString.simps) simp
      with lm "1.prems" True n show ?thesis by (simp add: digit_char_inj)
    next
      case n: False
      then have "toString n = toString (n div 10) @ [digit_char (n mod 10)]"
        by (subst toString.simps) simp
      with lm "1.prems" toString_nonempty[of "n div 10"] show ?thesis by simp
    qed
  next
    case False
    then have lm: "toString m = toString (m div 10) @ [digit_char (m mod 10)]"
      by (subst toString.simps) simp
    show ?thesis
    proof (cases "n < 10")
      case n: True
      then have "toString n = [digit_char n]" by (subst toString.simps) simp
      with lm "1.prems" toString_nonempty[of "m div 10"] show ?thesis by simp
    next
      case n: False
      then have "toString n = toString (n div 10) @ [digit_char (n mod 10)]"
        by (subst toString.simps) simp
      with lm "1.prems" have e: "toString (m div 10) = toString (n div 10)"
        "digit_char (m mod 10) = digit_char (n mod 10)" by simp_all
      from "1.IH"[OF False e(1)] have d: "m div 10 = n div 10" .
      from e(2) have r: "m mod 10 = n mod 10" by (intro digit_char_inj) simp_all
      from d r show ?thesis by (metis div_mult_mod_eq)
    qed
  qed
qed

lemma toString_small: "toString 0 = ''0''" "toString 50 = ''50''" "toString 100 = ''100''"
  by code_simp+

section \<open>Evaluating concrete runs\<close>

lemmas run_eval = init_def onShow_def fire_def expire_def createElement_def createRoot_def render_def
  unmount_def setTimeout_def appendChild_def splice1_def Let_def top_of_def

section \<open>Calls without expiry\<close>

lemma burst_fields:
  "queue ((onShow ^^ n) s) = queue s @
      map (\<lambda>i. \<lparr>msgContainer = length (elements s) + i, root = length (roots s) + i\<rparr>) [0..<n] \<and>
   elements ((onShow ^^ n) s) = elements s @
      map (\<lambda>i. \<lparr>className = ''message'',
                 style_top = toString ((length (queue s) + i) * 50) @ ''px''\<rparr>) [0..<n] \<and>
   length (roots ((onShow ^^ n) s)) = length (roots s) + n \<and>
   now ((onShow ^^ n) s) = now s"
proof (induction n)
  case 0 show ?case by simp
next
  case (Suc n)
  then show ?case
    by (simp add: onShow_queue onShow_elements onShow_roots onShow_now)
qed

lemma run_calls: "run (replicate n Call) s = Some ((onShow ^^ n) s)"
proof (induction n arbitrary: s)
  case 0 show ?case by simp
next
  case (Suc n)
  show ?case using Suc[of "onShow s"] by (simp add: funpow_swap1)
qed

text \<open>Claim C1. \<open>N\<close> calls of \<open>window.onShow\<close> in a row, with no time elapsing
  between them, into an empty queue: the clock has not moved, the queue holds exactly
  \<open>N\<close> records, the \<open>i\<close>-th of them has top \<open>i * 50\<close> pixels, and the \<open>N\<close> tops are
  pairwise distinct.\<close>

theorem burst_offsets:
  assumes e: "queue s = []"
  shows "\<exists>s'. run (replicate N Call) s = Some s' \<and> now s' = now s \<and>
           length (queue s') = N \<and>
           (\<forall>i<N. top_of s' (queue s' ! i) = toString (i * 50) @ ''px'') \<and>
           distinct (map (top_of s') (queue s'))"
proof -
  let ?s = "(onShow ^^ N) s"
  note f = burst_fields[of N s]
  have q: "queue ?s = map (\<lambda>i. \<lparr>msgContainer = length (elements s) + i, root = length (roots s) + i\<rparr>) [0..<N]"
    using f e by simp
  have el: "elements ?s = elements s @
      map (\<lambda>i. \<lparr>className = ''message'', style_top = toString (i * 50) @ ''px''\<rparr>) [0..<N]"
    using f e by simp
  have top: "top_of ?s (queue ?s ! i) = toString (i * 50) @ ''px''" if "i < N" for i
    using that by (simp add: top_of_def q el nth_append)
  have len: "length (queue ?s) = N" by (simp add: q)
  have "map (top_of ?s) (queue ?s) = map (\<lambda>i. toString (i * 50) @ ''px'') [0..<N]"
    by (rule nth_equalityI) (simp_all add: len top)
  moreover have "distinct (map (\<lambda>i. toString (i * 50) @ ''px'') [0..<N])"
    by (auto simp: distinct_map intro!: inj_onI dest: toString_inj)
  ultimately have dist: "distinct (map (top_of ?s) (queue ?s))" by simp
  show ?thesis
    apply (rule exI[of _ ?s])
    using run_calls[of N s] f len top dist by simp
qed

theorem burst_offsets_witness:
  "\<exists>s'. run [Call, Call, Call] (init 7) = Some s' \<and> now s' = 7 \<and> length (queue s') = 3 \<and>
     map (top_of s') (queue s') = [''0px'', ''50px'', ''100px'']"
proof -
  have e: "queue (init 7) = []" by (simp add: init_def)
  have r: "replicate 3 Call = [Call, Call, Call]" by (simp add: numeral_3_eq_3)
  from burst_offsets[OF e, of 3] obtain s' where
    s: "run (replicate 3 Call) (init 7) = Some s'" "now s' = now (init 7)" "length (queue s') = 3"
       "\<forall>i<3. top_of s' (queue s' ! i) = toString (i * 50) @ ''px''" by blast
  have t: "toString 0 = ''0''" "toString 50 = ''50''" "toString 100 = ''100''"
    by (rule toString_small)+
  from s(4) have "top_of s' (queue s' ! 0) = toString (0 * 50) @ ''px''"
    "top_of s' (queue s' ! 1) = toString (1 * 50) @ ''px''"
    "top_of s' (queue s' ! 2) = toString (2 * 50) @ ''px''" by simp_all
  with t have tops: "top_of s' (queue s' ! 0) = ''0px''" "top_of s' (queue s' ! 1) = ''50px''"
    "top_of s' (queue s' ! 2) = ''100px''" by simp_all
  from s(3) obtain a b c where q: "queue s' = [a, b, c]"
    by (auto simp: length_Suc_conv numeral_3_eq_3)
  from tops have "map (top_of s') (queue s') = [''0px'', ''50px'', ''100px'']"
    by (simp add: q)
  with s(1,2,3) r show ?thesis by (simp add: init_def)
qed

text \<open>Claim C7. A call is always accepted and always lengthens the queue by one,
  whatever its length; over any sequence of calls and clock ticks in which no expiry
  runs, the queue grows by exactly the number of calls, so no bound, coalescing or
  dropping exists.\<close>

theorem no_backpressure:
  assumes nf: "\<forall>e\<in>set evs. \<not> is_Fire e"
  shows "step Call s = Some (Normal (onShow s)) \<and>
         length (queue (onShow s)) = length (queue s) + 1 \<and>
         (\<exists>s'. run evs s = Some s' \<and> length (queue s') = length (queue s) + count_list evs Call)"
proof -
  have "\<exists>s'. run evs s = Some s' \<and> length (queue s') = length (queue s) + count_list evs Call"
    using nf
  proof (induction evs arbitrary: s)
    case Nil show ?case by simp
  next
    case (Cons e evs)
    then have nf': "\<forall>e\<in>set evs. \<not> is_Fire e" by simp
    show ?case
    proof (cases e)
      case Call
      with Cons.IH[OF nf', of "onShow s"] show ?thesis by (auto simp: onShow_queue)
    next
      case (Tick d)
      with Cons.IH[OF nf', of "s\<lparr>now := now s + d\<rparr>"] show ?thesis by auto
    next
      case (Fire k)
      with Cons.prems show ?thesis by simp
    qed
  qed
  then show ?thesis by (simp add: onShow_queue)
qed

theorem no_backpressure_witness:
  "\<exists>s'. run [Call, Tick 1999, Call, Call] (init 0) = Some s' \<and> length (queue s') = 3"
  using no_backpressure[of "[Call, Tick 1999, Call, Call]" "init 0"] by (simp add: init_def)

lemma calls_and_ticks:
  assumes inv: "queue_inv s" and nf: "\<forall>e\<in>set evs. \<not> is_Fire e"
  shows "\<exists>s' new. run evs s = Some s' \<and> queue s' = queue s @ new \<and>
           length new = count_list evs Call \<and>
           body s' = body s @ map msgContainer new \<and>
           timers s' = timers s @ zip (deadlines (now s) evs) (map msgContainer new) \<and>
           length (deadlines (now s) evs) = length new"
  using inv nf
proof (induction evs arbitrary: s)
  case Nil show ?case by simp
next
  case (Cons e evs)
  then have nf': "\<forall>e\<in>set evs. \<not> is_Fire e" by simp
  show ?case
  proof (cases e)
    case Call
    let ?i = "\<lparr>msgContainer = length (elements s), root = length (roots s)\<rparr>"
    have inv1: "queue_inv (onShow s)" using Cons.prems(1) by (rule queue_inv_onShow)
    from Cons.IH[OF inv1 nf'] obtain s' new where
      h: "run evs (onShow s) = Some s'" "queue s' = queue (onShow s) @ new"
         "length new = count_list evs Call"
         "body s' = body (onShow s) @ map msgContainer new"
         "timers s' = timers (onShow s) @ zip (deadlines (now (onShow s)) evs) (map msgContainer new)"
         "length (deadlines (now (onShow s)) evs) = length new"
      by blast
    show ?thesis
      apply (rule exI[of _ s'], rule exI[of _ "?i # new"])
      using h Call by (simp add: onShow_queue onShow_body_inv[OF Cons.prems(1)] onShow_timers onShow_now)
  next
    case (Tick d)
    have inv1: "queue_inv (s\<lparr>now := now s + d\<rparr>)" using Cons.prems(1) by (rule queue_inv_tick)
    from Cons.IH[OF inv1 nf'] Tick show ?thesis by simp
  next
    case (Fire k)
    with Cons.prems show ?thesis by simp
  qed
qed

text \<open>Claim C6. \<open>onShow\<close> takes the state and returns the state, nothing else. From a
  reachable state, over any sequence of calls and clock ticks without an expiry, each
  call adds exactly one record: with a fresh container attached last, a fresh root
  showing the component, and one task of its own whose deadline is that call's time plus
  2000. So \<open>N\<close> calls leave \<open>N\<close> new toasts on show together, each with its own
  deadline.\<close>

theorem one_toast_per_call:
  assumes r: "run evs0 (init t) = Some s" and nf: "\<forall>e\<in>set evs. \<not> is_Fire e"
  shows "\<exists>s' new. run evs s = Some s' \<and> queue s' = queue s @ new \<and>
           length new = count_list evs Call \<and>
           body s' = body s @ map msgContainer new \<and>
           timers s' = timers s @ zip (deadlines (now s) evs) (map msgContainer new) \<and>
           length (deadlines (now s) evs) = length new \<and>
           distinct (map msgContainer new) \<and> distinct (map root new) \<and>
           set (map msgContainer new) \<inter> set (body s) = {} \<and>
           (\<forall>item\<in>set new. roots s' ! root item =
               \<lparr>container = msgContainer item, rendered = Some (Message ())\<rparr>)"
proof -
  have inv: "queue_inv s" using r by (rule reachable_inv)
  from calls_and_ticks[OF inv nf] obtain s' new where
    h: "run evs s = Some s'" "queue s' = queue s @ new" "length new = count_list evs Call"
       "body s' = body s @ map msgContainer new"
       "timers s' = timers s @ zip (deadlines (now s) evs) (map msgContainer new)"
       "length (deadlines (now s) evs) = length new"
    by blast
  have inv': "queue_inv s'" using inv h(1) by (rule queue_inv_run)
  from inv' have d: "distinct (body s')" and dr: "distinct (map root (queue s'))"
    and rt: "\<forall>item\<in>set (queue s'). roots s' ! root item =
               \<lparr>container = msgContainer item, rendered = Some (Message ())\<rparr>"
    by (simp_all add: queue_inv_def)
  from d have 1: "distinct (map msgContainer new)" "set (map msgContainer new) \<inter> set (body s) = {}"
    by (auto simp: h(4))
  from dr have 2: "distinct (map root new)" by (simp add: h(2))
  from rt have 3: "\<forall>item\<in>set new. roots s' ! root item =
               \<lparr>container = msgContainer item, rendered = Some (Message ())\<rparr>"
    by (simp add: h(2))
  from h 1 2 3 show ?thesis by blast
qed

theorem one_toast_per_call_witness:
  "\<exists>s s'. run [Call, Tick 100] (init 0) = Some s \<and>
     run [Call, Tick 10, Call] s = Some s' \<and>
     queue s = [\<lparr>msgContainer = 0, root = 0\<rparr>] \<and>
     queue s' = [\<lparr>msgContainer = 0, root = 0\<rparr>, \<lparr>msgContainer = 1, root = 1\<rparr>,
                 \<lparr>msgContainer = 2, root = 2\<rparr>] \<and>
     body s' = [0, 1, 2] \<and>
     timers s' = [(2000, 0), (2100, 1), (2110, 2)]"
proof -
  obtain s where r: "run [Call, Tick 100] (init 0) = Some s"
    and fs: "queue s = [\<lparr>msgContainer = 0, root = 0\<rparr>]" "body s = [0]" "timers s = [(2000, 0)]"
      "now s = 100" "length (elements s) = 1" "length (roots s) = 1"
    by (simp add: run_eval)
  have nf: "\<forall>e\<in>set [Call, Tick 10, Call]. \<not> is_Fire e" by simp
  from one_toast_per_call[OF r nf] obtain s' new where
    h: "run [Call, Tick 10, Call] s = Some s'" "queue s' = queue s @ new"
       "body s' = body s @ map msgContainer new"
       "timers s' = timers s @ zip (deadlines (now s) [Call, Tick 10, Call]) (map msgContainer new)"
    by blast
  from h(1) have q: "queue s' = [\<lparr>msgContainer = 0, root = 0\<rparr>, \<lparr>msgContainer = 1, root = 1\<rparr>,
                 \<lparr>msgContainer = 2, root = 2\<rparr>]"
    by (auto simp: onShow_queue onShow_elements onShow_roots fs)
  with h(2) have n: "new = [\<lparr>msgContainer = 1, root = 1\<rparr>, \<lparr>msgContainer = 2, root = 2\<rparr>]"
    by (simp add: fs)
  from h(3,4) have "body s' = [0, 1, 2]" "timers s' = [(2000, 0), (2100, 1), (2110, 2)]"
    by (simp_all add: n fs)
  with r h(1) fs(1) q show ?thesis by blast
qed

section \<open>Expiry\<close>

text \<open>Claim C9. Whenever a timer task of a reachable state fires, the lookup
  \<open>queue.find\<close> by the captured container finds a record, so the non-null assertion
  holds and no exception is thrown; \<open>indexOf\<close> is not \<open>-1\<close>; exactly that record is
  removed, and the queue is shorter by exactly one.\<close>

theorem expiry_lookup_succeeds:
  assumes r: "run evs (init t) = Some s" and f: "fire k s = Some res"
  shows "\<exists>item s'. find (\<lambda>i. msgContainer i = snd (timers s ! k)) (queue s) = Some item \<and>
           0 \<le> indexOf item (queue s) \<and> res = Normal s' \<and>
           queue s' = remove1 item (queue s) \<and> item \<notin> set (queue s') \<and>
           length (queue s') + 1 = length (queue s)"
proof -
  have inv: "queue_inv s" using r by (rule reachable_inv)
  from fire_enabled[OF f] have k: "k < length (timers s)" and due: "fst (timers s ! k) \<le> now s" by auto
  from fire_normal[OF inv k due] obtain item s' where
    n: "find (\<lambda>i. msgContainer i = snd (timers s ! k)) (queue s) = Some item"
       "item \<in> set (queue s)" "msgContainer item = snd (timers s ! k)" "fire k s = Some (Normal s')"
       "queue s' = filter (\<lambda>i. msgContainer i \<noteq> snd (timers s ! k)) (queue s)"
    by blast
  from inv have dq: "distinct (map msgContainer (queue s))" by (simp add: queue_inv_def)
  have rm: "queue s' = remove1 item (queue s)"
    using remove1_filter_key[OF dq n(2)] n(3,5) by simp
  have notin: "item \<notin> set (queue s')" using n(3,5) by simp
  have len: "length (queue s') + 1 = length (queue s)"
    using n(2) by (simp add: rm length_remove1) (metis length_pos_if_in_set Suc_pred)
  from n(1) indexOf_mem[OF n(2)] n(4) f rm notin len show ?thesis by auto
qed

theorem expiry_lookup_succeeds_witness:
  "\<exists>s s'. run [Call, Tick 10, Call, Tick 1995] (init 0) = Some s \<and>
      fire 0 s = Some (Normal s') \<and>
      queue s = [\<lparr>msgContainer = 0, root = 0\<rparr>, \<lparr>msgContainer = 1, root = 1\<rparr>] \<and>
      queue s' = [\<lparr>msgContainer = 1, root = 1\<rparr>]"
proof -
  obtain s where r: "run [Call, Tick 10, Call, Tick 1995] (init 0) = Some s"
    and q: "queue s = [\<lparr>msgContainer = 0, root = 0\<rparr>, \<lparr>msgContainer = 1, root = 1\<rparr>]"
    and tm: "timers s = [(2000, 0), (2010, 1)]" and n: "now s = 2005"
    by (simp add: run_eval)
  obtain res where f: "fire 0 s = Some res" by (simp add: fire_def tm n)
  from expiry_lookup_succeeds[OF r f] obtain item s' where
    e: "find (\<lambda>i. msgContainer i = snd (timers s ! 0)) (queue s) = Some item"
       "res = Normal s'" "queue s' = remove1 item (queue s)" by blast
  from e(1) have "item = \<lparr>msgContainer = 0, root = 0\<rparr>" by (simp add: q tm)
  with e(3) have "queue s' = [\<lparr>msgContainer = 1, root = 1\<rparr>]" by (simp add: q)
  with r f e(2) q show ?thesis by blast
qed

text \<open>Claim C3. When the task of record \<open>A\<close> fires in a reachable state, the queue
  loses exactly the records whose container is \<open>A\<close>'s (removal by container identity,
  order kept), and any other record \<open>B\<close> is still queued, its container still attached
  and unchanged, its root still the same and still mounted, its own task still
  pending.\<close>

theorem expiry_isolated:
  assumes r: "run evs (init t) = Some s" and f: "fire k s = Some res"
    and A: "find (\<lambda>i. msgContainer i = snd (timers s ! k)) (queue s) = Some A"
    and B: "B \<in> set (queue s)" and ne: "B \<noteq> A"
  shows "queue (state_of res) = filter (\<lambda>i. msgContainer i \<noteq> msgContainer A) (queue s) \<and>
         B \<in> set (queue (state_of res)) \<and>
         msgContainer B \<in> set (body (state_of res)) \<and>
         elements (state_of res) ! msgContainer B = elements s ! msgContainer B \<and>
         roots (state_of res) ! root B = roots s ! root B \<and>
         roots s ! root B = \<lparr>container = msgContainer B, rendered = Some (Message ())\<rparr> \<and>
         (\<forall>tm\<in>set (timers s). snd tm = msgContainer B \<longrightarrow> tm \<in> set (timers (state_of res)))"
proof -
  have inv: "queue_inv s" using r by (rule reachable_inv)
  from fire_enabled[OF f] have k: "k < length (timers s)" and due: "fst (timers s ! k) \<le> now s" by auto
  let ?c = "snd (timers s ! k)"
  from fire_normal[OF inv k due] A obtain s' where
    n: "A \<in> set (queue s)" "msgContainer A = ?c" "fire k s = Some (Normal s')"
       "queue s' = filter (\<lambda>i. msgContainer i \<noteq> ?c) (queue s)"
       "body s' = filter (\<lambda>x. x \<noteq> ?c) (body s)"
       "roots s' = unmount (root A) (roots s)"
       "elements s' = elements s"
       "timers s' = filter (\<lambda>tm. snd tm \<noteq> ?c) (timers s)"
    by auto
  from n(3) f have st: "state_of res = s'" by simp
  have cB: "msgContainer B \<noteq> ?c"
    using queue_inv_same_container[OF inv B n(1)] ne n(2) by auto
  from inv have q: "map msgContainer (queue s) = body s"
    and dr: "distinct (map root (queue s))"
    and rt: "\<forall>item\<in>set (queue s). root item < length (roots s) \<and>
        roots s ! root item = \<lparr>container = msgContainer item, rendered = Some (Message ())\<rparr>"
    by (simp_all add: queue_inv_def)
  have 1: "queue s' = filter (\<lambda>i. msgContainer i \<noteq> msgContainer A) (queue s)" by (simp add: n(2,4))
  have 2: "B \<in> set (queue s')" using B cB by (simp add: n(4))
  have "msgContainer B \<in> set (body s)" using B q by (metis image_eqI list.set_map)
  then have 3: "msgContainer B \<in> set (body s')" using cB by (simp add: n(5))
  have 4: "elements s' ! msgContainer B = elements s ! msgContainer B" by (simp add: n(7))
  have "root B \<noteq> root A" using dr B n(1) ne by (meson distinct_map inj_onD)
  then have 5: "roots s' ! root B = roots s ! root B" by (simp add: n(6) unmount_def)
  have 6: "roots s ! root B = \<lparr>container = msgContainer B, rendered = Some (Message ())\<rparr>"
    using rt B by simp
  have 7: "\<forall>tm\<in>set (timers s). snd tm = msgContainer B \<longrightarrow> tm \<in> set (timers s')"
    using cB by (simp add: n(8))
  from 1 2 3 4 5 6 7 show ?thesis unfolding st by blast
qed

theorem expiry_isolated_witness:
  "\<exists>s s'. run [Call, Tick 10, Call, Tick 1995] (init 0) = Some s \<and>
      fire 0 s = Some (Normal s') \<and>
      queue s = [\<lparr>msgContainer = 0, root = 0\<rparr>, \<lparr>msgContainer = 1, root = 1\<rparr>] \<and>
      queue s' = [\<lparr>msgContainer = 1, root = 1\<rparr>] \<and>
      1 \<in> set (body s') \<and>
      roots s' ! 1 = \<lparr>container = 1, rendered = Some (Message ())\<rparr> \<and>
      (2010, 1) \<in> set (timers s')"
proof -
  obtain s where r: "run [Call, Tick 10, Call, Tick 1995] (init 0) = Some s"
    and fs: "queue s = [\<lparr>msgContainer = 0, root = 0\<rparr>, \<lparr>msgContainer = 1, root = 1\<rparr>]"
      "timers s = [(2000, 0), (2010, 1)]" "now s = 2005" "body s = [0, 1]"
    by (simp add: run_eval)
  obtain s' where f: "fire 0 s = Some (Normal s')" by (simp add: run_eval fs)
  have A: "find (\<lambda>i. msgContainer i = snd (timers s ! 0)) (queue s) = Some \<lparr>msgContainer = 0, root = 0\<rparr>"
    by (simp add: fs)
  have B: "\<lparr>msgContainer = 1, root = 1\<rparr> \<in> set (queue s)" by (simp add: fs)
  have ne: "\<lparr>msgContainer = 1, root = 1\<rparr> \<noteq> \<lparr>msgContainer = 0, root = 0\<rparr>" by simp
  from expiry_isolated[OF r f A B ne]
  have "queue s' = [\<lparr>msgContainer = 1, root = 1\<rparr>]" "1 \<in> set (body s')"
    "roots s' ! 1 = \<lparr>container = 1, rendered = Some (Message ())\<rparr>"
    "(2010, 1) \<in> set (timers s')"
    by (simp_all add: fs)
  with r f fs(1) show ?thesis by blast
qed

lemma expire_elements: "elements (state_of (expire c s)) = elements s"
  by (simp add: expire_def Let_def split: option.splits)

lemma set_splice1: "set (splice1 i xs) \<subseteq> set xs"
proof -
  have "set (take a xs @ drop b xs) \<subseteq> set xs" for a b
    using set_take_subset[of a xs] set_drop_subset[of b xs] by auto
  then show ?thesis unfolding splice1_def Let_def by blast
qed

lemma expire_queue_subset: "set (queue (state_of (expire c s))) \<subseteq> set (queue s)"
  using set_splice1[of _ "queue s"] by (auto simp: expire_def Let_def split: option.splits)

text \<open>Claim C5. An expiry leaves the store of elements as it is: every record still
  queued after it was queued before it, and the \<open>top\<close> of its container is the same
  before and after.\<close>

theorem offsets_never_recomputed:
  assumes f: "fire k s = Some res" and B: "B \<in> set (queue (state_of res))"
  shows "B \<in> set (queue s) \<and> elements (state_of res) = elements s \<and>
         top_of (state_of res) B = top_of s B"
proof -
  let ?s0 = "s\<lparr>timers := take k (timers s) @ drop (Suc k) (timers s)\<rparr>"
  from f have res: "res = expire (snd (timers s ! k)) ?s0"
    by (simp add: fire_def split: if_splits)
  have e: "elements (state_of res) = elements s" unfolding res by (simp add: expire_elements)
  have "set (queue (state_of res)) \<subseteq> set (queue ?s0)" unfolding res by (rule expire_queue_subset)
  with B have "B \<in> set (queue s)" by auto
  with e show ?thesis by (simp add: top_of_def)
qed

theorem offsets_never_recomputed_witness:
  "\<exists>s s'. run [Call, Call, Tick 2000] (init 0) = Some s \<and> fire 0 s = Some (Normal s') \<and>
     queue s' = [\<lparr>msgContainer = 1, root = 1\<rparr>] \<and>
     top_of s \<lparr>msgContainer = 1, root = 1\<rparr> = ''50px'' \<and>
     top_of s' \<lparr>msgContainer = 1, root = 1\<rparr> = ''50px''"
proof -
  obtain s where r: "run [Call, Call, Tick 2000] (init 0) = Some s"
    and t: "top_of s \<lparr>msgContainer = 1, root = 1\<rparr> = ''50px''"
    and fs: "queue s = [\<lparr>msgContainer = 0, root = 0\<rparr>, \<lparr>msgContainer = 1, root = 1\<rparr>]"
      "timers s = [(2000, 0), (2000, 1)]" "now s = 2000" "body s = [0, 1]"
    by (simp add: run_eval toString_small)
  obtain s' where f: "fire 0 s = Some (Normal s')" and q: "queue s' = [\<lparr>msgContainer = 1, root = 1\<rparr>]"
    by (simp add: run_eval fs)
  have "\<lparr>msgContainer = 1, root = 1\<rparr> \<in> set (queue (state_of (Normal s')))" by (simp add: q)
  from offsets_never_recomputed[OF f this] t
  have "top_of s' \<lparr>msgContainer = 1, root = 1\<rparr> = ''50px''" by simp
  with r f q t show ?thesis by blast
qed

text \<open>Claim C4. In every reachable state each queued record has its container attached
  and allocated and its own root mounted into that container; conversely every attached
  container and every mounted root belongs to a queued record, and no container or root
  is shared. When a task fires, its record leaves the queue, its container is detached
  and its root unmounted.\<close>

theorem queue_invariant:
  assumes r: "run evs (init t) = Some s"
  shows "(\<forall>item\<in>set (queue s).
            msgContainer item \<in> set (body s) \<and> msgContainer item < length (elements s) \<and>
            root item < length (roots s) \<and>
            roots s ! root item = \<lparr>container = msgContainer item, rendered = Some (Message ())\<rparr>) \<and>
         (\<forall>c\<in>set (body s). \<exists>item\<in>set (queue s). msgContainer item = c) \<and>
         (\<forall>r\<in>set [0..<length (roots s)].
            rendered (roots s ! r) \<noteq> None \<longrightarrow> (\<exists>item\<in>set (queue s). root item = r)) \<and>
         distinct (map msgContainer (queue s)) \<and> distinct (map root (queue s)) \<and>
         (\<forall>k res. fire k s = Some res \<longrightarrow>
            (\<exists>item s'. res = Normal s' \<and> item \<in> set (queue s) \<and>
               msgContainer item = snd (timers s ! k) \<and>
               item \<notin> set (queue s') \<and> msgContainer item \<notin> set (body s') \<and>
               rendered (roots s' ! root item) = None))"
proof -
  have inv: "queue_inv s" using r by (rule reachable_inv)
  from inv have q: "map msgContainer (queue s) = body s"
    and d: "distinct (body s)" and el: "\<forall>c\<in>set (body s). c < length (elements s)"
    and dr: "distinct (map root (queue s))"
    and rt: "\<forall>item\<in>set (queue s). root item < length (roots s) \<and>
        roots s ! root item = \<lparr>container = msgContainer item, rendered = Some (Message ())\<rparr>"
    and mt: "\<forall>r\<in>set [0..<length (roots s)].
        rendered (roots s ! r) \<noteq> None \<longrightarrow> r \<in> root ` set (queue s)"
    by (simp_all add: queue_inv_def)
  have mem: "msgContainer item \<in> set (body s)" if "item \<in> set (queue s)" for item
    using that q by (metis image_eqI list.set_map)
  have 1: "\<forall>item\<in>set (queue s).
            msgContainer item \<in> set (body s) \<and> msgContainer item < length (elements s) \<and>
            root item < length (roots s) \<and>
            roots s ! root item = \<lparr>container = msgContainer item, rendered = Some (Message ())\<rparr>"
    using mem el rt by blast
  have 2: "\<forall>c\<in>set (body s). \<exists>item\<in>set (queue s). msgContainer item = c"
    using q by (metis (no_types, lifting) image_iff list.set_map)
  have 3: "\<forall>r\<in>set [0..<length (roots s)].
            rendered (roots s ! r) \<noteq> None \<longrightarrow> (\<exists>item\<in>set (queue s). root item = r)"
    using mt by blast
  have 4: "distinct (map msgContainer (queue s))" using q d by simp
  have 6: "\<exists>item s'. res = Normal s' \<and> item \<in> set (queue s) \<and>
               msgContainer item = snd (timers s ! k) \<and>
               item \<notin> set (queue s') \<and> msgContainer item \<notin> set (body s') \<and>
               rendered (roots s' ! root item) = None" if f: "fire k s = Some res" for k res
  proof -
    from fire_enabled[OF f] have k: "k < length (timers s)" and due: "fst (timers s ! k) \<le> now s"
      by auto
    from fire_normal[OF inv k due] obtain item s' where
      n: "item \<in> set (queue s)" "msgContainer item = snd (timers s ! k)" "fire k s = Some (Normal s')"
         "queue s' = filter (\<lambda>i. msgContainer i \<noteq> snd (timers s ! k)) (queue s)"
         "body s' = filter (\<lambda>x. x \<noteq> snd (timers s ! k)) (body s)"
         "roots s' = unmount (root item) (roots s)"
      by blast
    from rt n(1) have "root item < length (roots s)" by simp
    then have "rendered (roots s' ! root item) = None" by (simp add: n(6) unmount_def)
    moreover have "item \<notin> set (queue s')" "msgContainer item \<notin> set (body s')"
      using n(2) by (simp_all add: n(4,5))
    moreover have "res = Normal s'" using n(3) f by simp
    ultimately show ?thesis using n(1,2) by blast
  qed
  from 1 2 3 4 dr 6 show ?thesis by blast
qed

theorem queue_invariant_witness:
  "\<exists>s s'. run [Call, Call, Tick 2000] (init 0) = Some s \<and>
     queue s = [\<lparr>msgContainer = 0, root = 0\<rparr>, \<lparr>msgContainer = 1, root = 1\<rparr>] \<and>
     0 \<in> set (body s) \<and> 1 \<in> set (body s) \<and>
     roots s ! 0 = \<lparr>container = 0, rendered = Some (Message ())\<rparr> \<and>
     roots s ! 1 = \<lparr>container = 1, rendered = Some (Message ())\<rparr> \<and>
     fire 0 s = Some (Normal s') \<and>
     \<lparr>msgContainer = 0, root = 0\<rparr> \<notin> set (queue s') \<and> 0 \<notin> set (body s') \<and>
     rendered (roots s' ! 0) = None"
proof -
  obtain s where r: "run [Call, Call, Tick 2000] (init 0) = Some s"
    and fs: "queue s = [\<lparr>msgContainer = 0, root = 0\<rparr>, \<lparr>msgContainer = 1, root = 1\<rparr>]"
      "timers s = [(2000, 0), (2000, 1)]" "now s = 2000"
    by (simp add: run_eval)
  obtain res where f: "fire 0 s = Some res" by (simp add: fire_def fs)
  note th = queue_invariant[OF r]
  from th have a: "\<forall>item\<in>set (queue s).
            msgContainer item \<in> set (body s) \<and>
            roots s ! root item = \<lparr>container = msgContainer item, rendered = Some (Message ())\<rparr>"
    and dq: "distinct (map msgContainer (queue s))"
    by blast+
  from th f obtain item s' where
    e: "res = Normal s'" "item \<in> set (queue s)" "msgContainer item = snd (timers s ! 0)"
       "item \<notin> set (queue s')" "msgContainer item \<notin> set (body s')"
       "rendered (roots s' ! root item) = None" by blast
  from e(2,3) have i: "item = \<lparr>msgContainer = 0, root = 0\<rparr>" by (auto simp: fs)
  from a have "0 \<in> set (body s)" "1 \<in> set (body s)"
     "roots s ! 0 = \<lparr>container = 0, rendered = Some (Message ())\<rparr>"
     "roots s ! 1 = \<lparr>container = 1, rendered = Some (Message ())\<rparr>"
    by (simp_all add: fs)
  with r fs(1) f e i show ?thesis by auto
qed

section \<open>One record from call to expiry\<close>

lemma queue_inv_same_timer:
  assumes inv: "queue_inv s" and a: "a \<in> set (timers s)" and b: "b \<in> set (timers s)"
    and e: "snd a = snd b"
  shows "a = b"
proof -
  from inv have "distinct (map snd (timers s))" by (simp add: queue_inv_def)
  with a b e show ?thesis by (meson distinct_map inj_onD)
qed

lemma tracked_onShow_new:
  assumes inv: "queue_inv s"
  shows "tracked (now s) \<lparr>msgContainer = length (elements s), root = length (roots s)\<rparr> (onShow s)"
  using queue_inv_onShow[OF inv]
  by (simp add: tracked_def onShow_queue onShow_elements onShow_roots onShow_timers)

lemma tracked_onShow:
  assumes t: "tracked T item s"
  shows "tracked T item (onShow s)"
proof -
  from t have inv: "queue_inv s" and c: "msgContainer item < length (elements s)"
    and r: "root item < length (roots s)" by (simp_all add: tracked_def)
  have inv': "queue_inv (onShow s)" using inv by (rule queue_inv_onShow)
  from t show ?thesis
    using inv' c r
    by (auto simp: tracked_def onShow_queue onShow_elements onShow_roots onShow_timers
        onShow_body_inv[OF inv] onShow_now nth_append)
qed

lemma tracked_tick: "tracked T item s \<Longrightarrow> tracked T item (s\<lparr>now := now s + d\<rparr>)"
  by (auto simp: tracked_def queue_inv_tick)

lemma tracked_fire:
  assumes t: "tracked T item s" and f: "fire k s = Some res"
  shows "tracked T item (state_of res)"
proof -
  from t have inv: "queue_inv s" and c: "msgContainer item < length (elements s)"
    and r: "root item < length (roots s)" by (simp_all add: tracked_def)
  from fire_enabled[OF f] have k: "k < length (timers s)" and due: "fst (timers s ! k) \<le> now s" by auto
  let ?c = "snd (timers s ! k)"
  from fire_normal[OF inv k due] obtain A s' where
    n: "A \<in> set (queue s)" "msgContainer A = ?c" "fire k s = Some (Normal s')"
       "queue s' = filter (\<lambda>i. msgContainer i \<noteq> ?c) (queue s)"
       "body s' = filter (\<lambda>x. x \<noteq> ?c) (body s)"
       "roots s' = unmount (root A) (roots s)"
       "elements s' = elements s"
       "timers s' = filter (\<lambda>tm. snd tm \<noteq> ?c) (timers s)"
       "now s' = now s"
    by blast
  from n(3) f have st: "state_of res = s'" by simp
  have inv': "queue_inv s'" using queue_inv_fire[OF inv f] st by simp
  have len: "length (roots s') = length (roots s)" by (simp add: n(6) unmount_def)
  from t consider
    (live) "item \<in> set (queue s)" "(T + 2000, msgContainer item) \<in> set (timers s)"
    | (gone) "msgContainer item \<notin> set (body s)" "T + 2000 \<le> now s"
        "rendered (roots s ! root item) = None"
    by (auto simp: tracked_def)
  then have "(item \<in> set (queue s') \<and> (T + 2000, msgContainer item) \<in> set (timers s')) \<or>
      (msgContainer item \<notin> set (body s') \<and> T + 2000 \<le> now s' \<and>
       rendered (roots s' ! root item) = None)"
  proof cases
    case live
    show ?thesis
    proof (cases "msgContainer item = ?c")
      case True
      have "A = item" using queue_inv_same_container[OF inv n(1) live(1)] n(2) True by simp
      then have u: "rendered (roots s' ! root item) = None" using r by (simp add: n(6) unmount_def)
      have "timers s ! k \<in> set (timers s)" using k by simp
      from queue_inv_same_timer[OF inv this live(2)] True
      have "timers s ! k = (T + 2000, msgContainer item)" by simp
      with due have "T + 2000 \<le> now s" by simp
      with u True show ?thesis by (simp add: n(5,9))
    next
      case False
      with live show ?thesis by (simp add: n(4,8))
    qed
  next
    case gone
    have "rendered (roots s' ! root item) = None"
      using gone(3) r by (cases "root A = root item") (simp_all add: n(6) unmount_def)
    with gone show ?thesis by (simp add: n(5,9))
  qed
  with inv' c r len show ?thesis unfolding st by (simp add: tracked_def n(7))
qed

lemma tracked_step: "tracked T item s \<Longrightarrow> step e s = Some res \<Longrightarrow> tracked T item (state_of res)"
  by (cases e) (auto simp: tracked_onShow tracked_tick tracked_fire)

lemma tracked_run: "tracked T item s \<Longrightarrow> run es s = Some s' \<Longrightarrow> tracked T item s'"
proof (induction es arbitrary: s)
  case Nil then show ?case by simp
next
  case (Cons e es)
  from Cons.prems(2) obtain r where r: "step e s = Some r" "run es (state_of r) = Some s'"
    by (auto split: option.splits)
  from tracked_step[OF Cons.prems(1) r(1)] Cons.IH r(2) show ?case by blast
qed

lemma tracked_cases:
  assumes t: "tracked T item s"
  shows "(item \<in> set (queue s) \<longleftrightarrow> (T + 2000, msgContainer item) \<in> set (timers s)) \<and>
         (item \<in> set (queue s) \<longrightarrow> msgContainer item \<in> set (body s) \<and>
            rendered (roots s ! root item) = Some (Message ())) \<and>
         (item \<notin> set (queue s) \<longrightarrow> T + 2000 \<le> now s \<and> msgContainer item \<notin> set (body s) \<and>
            rendered (roots s ! root item) = None)"
proof -
  from t have inv: "queue_inv s" by (simp add: tracked_def)
  from inv have q: "map msgContainer (queue s) = body s" and tm: "map snd (timers s) = body s"
    and rt: "\<forall>item\<in>set (queue s). 
        roots s ! root item = \<lparr>container = msgContainer item, rendered = Some (Message ())\<rparr>"
    by (simp_all add: queue_inv_def)
  have inq: "msgContainer i \<in> set (body s)" if "i \<in> set (queue s)" for i
    using that q by (metis image_eqI list.set_map)
  have intm: "snd x \<in> set (body s)" if "x \<in> set (timers s)" for x
    using that tm by (metis image_eqI list.set_map)
  from t consider
    (live) "item \<in> set (queue s)" "(T + 2000, msgContainer item) \<in> set (timers s)"
    | (gone) "msgContainer item \<notin> set (body s)" "T + 2000 \<le> now s"
        "rendered (roots s ! root item) = None"
    by (auto simp: tracked_def)
  then show ?thesis
  proof cases
    case live
    with inq[OF live(1)] rt show ?thesis by simp
  next
    case gone
    from gone(1) inq have 1: "item \<notin> set (queue s)" by blast
    from gone(1) intm have 2: "(T + 2000, msgContainer item) \<notin> set (timers s)" by fastforce
    from 1 2 gone show ?thesis by simp
  qed
qed

text \<open>Claim C2. Take a call made at time \<open>T\<close> in a reachable state and any run after
  it. The record it pushed is queued exactly as long as its own task
  \<open>(T + 2000, container)\<close> is pending, and while queued it is attached and mounted. If
  it is no longer queued, the clock has reached \<open>T + 2000\<close> and the record is detached
  and unmounted: it never goes earlier. The only event that takes it out of the queue is
  the firing of its own task, and from \<open>T + 2000\<close> on that task can fire and then
  removes it. No event cancels a task or dismisses a record.\<close>

theorem expiry_after_2000ms:
  fixes s0 :: state
  defines "item \<equiv> \<lparr>msgContainer = length (elements s0), root = length (roots s0)\<rparr>"
  assumes r0: "run evs0 (init t) = Some s0" and r: "run evs (onShow s0) = Some s"
  shows "queue (onShow s0) = queue s0 @ [item] \<and>
         timers (onShow s0) = timers s0 @ [(now s0 + 2000, msgContainer item)] \<and>
         (item \<in> set (queue s) \<longleftrightarrow> (now s0 + 2000, msgContainer item) \<in> set (timers s)) \<and>
         (item \<in> set (queue s) \<longrightarrow> msgContainer item \<in> set (body s) \<and>
            rendered (roots s ! root item) = Some (Message ())) \<and>
         (item \<notin> set (queue s) \<longrightarrow> now s0 + 2000 \<le> now s \<and> msgContainer item \<notin> set (body s) \<and>
            rendered (roots s ! root item) = None) \<and>
         (\<forall>e res. step e s = Some res \<and> item \<in> set (queue s) \<and> item \<notin> set (queue (state_of res)) \<longrightarrow>
            (\<exists>k. e = Fire k \<and> timers s ! k = (now s0 + 2000, msgContainer item) \<and>
                 now s0 + 2000 \<le> now s)) \<and>
         (item \<in> set (queue s) \<and> now s0 + 2000 \<le> now s \<longrightarrow>
            (\<exists>k s'. timers s ! k = (now s0 + 2000, msgContainer item) \<and>
               fire k s = Some (Normal s') \<and> item \<notin> set (queue s') \<and>
               msgContainer item \<notin> set (body s') \<and> rendered (roots s' ! root item) = None))"
proof -
  let ?T = "now s0"
  have inv0: "queue_inv s0" using r0 by (rule reachable_inv)
  have t1: "tracked ?T item (onShow s0)" unfolding item_def using inv0 by (rule tracked_onShow_new)
  have t: "tracked ?T item s" using t1 r by (rule tracked_run)
  then have inv: "queue_inv s" and rl: "root item < length (roots s)" by (simp_all add: tracked_def)
  from tracked_cases[OF t]
  have c1: "item \<in> set (queue s) \<longleftrightarrow> (?T + 2000, msgContainer item) \<in> set (timers s)"
    and c2: "item \<in> set (queue s) \<longrightarrow> msgContainer item \<in> set (body s) \<and>
            rendered (roots s ! root item) = Some (Message ())"
    and c3: "item \<notin> set (queue s) \<longrightarrow> ?T + 2000 \<le> now s \<and> msgContainer item \<notin> set (body s) \<and>
            rendered (roots s ! root item) = None"
    by simp_all
  have 1: "queue (onShow s0) = queue s0 @ [item]" by (simp add: onShow_queue item_def)
  have 2: "timers (onShow s0) = timers s0 @ [(?T + 2000, msgContainer item)]"
    by (simp add: onShow_timers item_def)
  have 6: "\<exists>k. e = Fire k \<and> timers s ! k = (?T + 2000, msgContainer item) \<and> ?T + 2000 \<le> now s"
    if st: "step e s = Some res" and i: "item \<in> set (queue s)"
      and ni: "item \<notin> set (queue (state_of res))" for e res
  proof (cases e)
    case Call
    with st i ni show ?thesis by (auto simp: onShow_queue)
  next
    case (Tick d)
    with st i ni show ?thesis by auto
  next
    case (Fire k)
    with st have f: "fire k s = Some res" by simp
    from fire_enabled[OF f] have k: "k < length (timers s)" and due: "fst (timers s ! k) \<le> now s"
      by auto
    from fire_normal[OF inv k due] obtain A s' where
      n: "fire k s = Some (Normal s')"
         "queue s' = filter (\<lambda>i. msgContainer i \<noteq> snd (timers s ! k)) (queue s)"
      by blast
    from n(1) f have "state_of res = s'" by simp
    with ni i have same: "msgContainer item = snd (timers s ! k)" by (simp add: n(2))
    from c1 i have a: "(?T + 2000, msgContainer item) \<in> set (timers s)" by simp
    have b: "timers s ! k \<in> set (timers s)" using k by simp
    have "timers s ! k = (?T + 2000, msgContainer item)"
      by (rule queue_inv_same_timer[OF inv b a]) (simp add: same)
    with due Fire show ?thesis by simp
  qed
  have 7: "\<exists>k s'. timers s ! k = (?T + 2000, msgContainer item) \<and>
               fire k s = Some (Normal s') \<and> item \<notin> set (queue s') \<and>
               msgContainer item \<notin> set (body s') \<and> rendered (roots s' ! root item) = None"
    if i: "item \<in> set (queue s)" and late: "?T + 2000 \<le> now s"
  proof -
    from c1 i have "(?T + 2000, msgContainer item) \<in> set (timers s)" by simp
    then obtain k where k: "k < length (timers s)" and tk: "timers s ! k = (?T + 2000, msgContainer item)"
      by (auto simp: in_set_conv_nth)
    from tk late have due: "fst (timers s ! k) \<le> now s" by simp
    from fire_normal[OF inv k due] obtain A s' where
      n: "A \<in> set (queue s)" "msgContainer A = snd (timers s ! k)" "fire k s = Some (Normal s')"
         "queue s' = filter (\<lambda>i. msgContainer i \<noteq> snd (timers s ! k)) (queue s)"
         "body s' = filter (\<lambda>x. x \<noteq> snd (timers s ! k)) (body s)"
         "roots s' = unmount (root A) (roots s)"
      by blast
    have "A = item" using queue_inv_same_container[OF inv n(1) i] n(2) tk by simp
    then have "rendered (roots s' ! root item) = None" using rl by (simp add: n(6) unmount_def)
    moreover have "item \<notin> set (queue s')" "msgContainer item \<notin> set (body s')"
      using tk by (simp_all add: n(4,5))
    ultimately show ?thesis using tk n(3) by blast
  qed
  have s6: "\<forall>e res. step e s = Some res \<and> item \<in> set (queue s) \<and>
              item \<notin> set (queue (state_of res)) \<longrightarrow>
            (\<exists>k. e = Fire k \<and> timers s ! k = (?T + 2000, msgContainer item) \<and>
                 ?T + 2000 \<le> now s)"
    by (intro allI impI, elim conjE, rule 6)
  have s7: "item \<in> set (queue s) \<and> ?T + 2000 \<le> now s \<longrightarrow>
            (\<exists>k s'. timers s ! k = (?T + 2000, msgContainer item) \<and>
               fire k s = Some (Normal s') \<and> item \<notin> set (queue s') \<and>
               msgContainer item \<notin> set (body s') \<and> rendered (roots s' ! root item) = None)"
    by (intro impI, elim conjE, rule 7)
  show ?thesis
    apply (intro conjI)
          apply (rule 1)
         apply (rule 2)
        apply (rule c1)
       apply (rule c2)
      apply (rule c3)
     apply (rule s6)
    apply (rule s7)
    done
qed

theorem expiry_after_2000ms_witness:
  "\<exists>s0 s. run [Call, Tick 500] (init 0) = Some s0 \<and> now s0 = 500 \<and>
     last (queue (onShow s0)) = \<lparr>msgContainer = 1, root = 1\<rparr> \<and>
     run [Tick 1999, Fire 1] (onShow s0) = None \<and>
     run [Tick 1500, Fire 0, Tick 500, Fire 0] (onShow s0) = Some s \<and>
     \<lparr>msgContainer = 1, root = 1\<rparr> \<notin> set (queue s) \<and>
     (2500, 1) \<notin> set (timers s) \<and>
     2500 \<le> now s \<and> 1 \<notin> set (body s) \<and> rendered (roots s ! 1) = None"
proof -
  obtain s0 where r0: "run [Call, Tick 500] (init 0) = Some s0"
    and fs: "queue s0 = [\<lparr>msgContainer = 0, root = 0\<rparr>]" "body s0 = [0]" "timers s0 = [(2000, 0)]"
      "now s0 = 500" "length (elements s0) = 1" "length (roots s0) = 1"
    by (simp add: run_eval)
  have early: "run [Tick 1999, Fire 1] (onShow s0) = None"
    by (simp add: fire_def onShow_timers onShow_now fs)
  obtain s where r: "run [Tick 1500, Fire 0, Tick 500, Fire 0] (onShow s0) = Some s"
    and q: "queue s = []"
    by (simp add: run_eval fs)
  from expiry_after_2000ms[OF r0 r]
  have "queue (onShow s0) = queue s0 @ [\<lparr>msgContainer = 1, root = 1\<rparr>]"
    "(\<lparr>msgContainer = 1, root = 1\<rparr> \<in> set (queue s)) = ((2500, 1) \<in> set (timers s))"
    "\<lparr>msgContainer = 1, root = 1\<rparr> \<notin> set (queue s) \<longrightarrow>
       2500 \<le> now s \<and> 1 \<notin> set (body s) \<and> rendered (roots s ! 1) = None"
    by (simp_all add: fs)
  with q have "last (queue (onShow s0)) = \<lparr>msgContainer = 1, root = 1\<rparr>"
    "\<lparr>msgContainer = 1, root = 1\<rparr> \<notin> set (queue s)" "(2500, 1) \<notin> set (timers s)"
    "2500 \<le> now s" "1 \<notin> set (body s)" "rendered (roots s ! 1) = None"
    by simp_all
  with r0 fs(4) early r show ?thesis by blast
qed

section \<open>Offsets after an expiry\<close>

text \<open>Claim C10. The top is computed from the queue length at the call. Calls at 0 and
  1900, the first expiry at 2100, then a third call: the two records then queued both
  have top \<open>50px\<close>, so the tops of simultaneously queued records are not distinct once
  an expiry has come between calls.\<close>

theorem offsets_collide_after_expiry:
  "\<exists>s. run [Call, Tick 1900, Call, Tick 200, Fire 0, Call] (init 0) = Some s \<and>
     now s = 2100 \<and>
     queue s = [\<lparr>msgContainer = 1, root = 1\<rparr>, \<lparr>msgContainer = 2, root = 2\<rparr>] \<and>
     top_of s (queue s ! 0) = ''50px'' \<and> top_of s (queue s ! 1) = ''50px'' \<and>
     \<not> distinct (map (top_of s) (queue s))"
  by (simp add: run_eval toString_small)

end
